theory Spec2Isabelle
  imports Complex_Main "HOL-Library.Word" "HOL-Library.Product_Lexorder"
begin

section \<open>The data of \<open>knn.c\<close>\<close>

text \<open>
  \<open>knn.c\<close> builds, for every point of a dataset, a chain of \<open>struct segment\<close> nodes
  that is meant to hold the point's nearest neighbours. The embedding follows the file
  function by function.

  \<^item> \<open>unsigned int\<close> is a 32-bit word; \<open>ftype\<close> (\<open>float\<close>) is abstracted to \<open>real\<close>, so
    rounding, infinities and NaN are outside the model. Only the comparisons \<open>< 0\<close> and
    \<open>>\<close> of the source are applied to these values.
  \<^item> A pointer to a segment is \<open>nat option\<close>: \<open>None\<close> is \<open>NULL\<close>, \<open>Some a\<close> is the address
    of cell \<open>a\<close> of the store. The store is the list of all segment cells; in
    \<open>segmented_knn\<close> it is the block obtained from \<open>malloc\<close>, and \<open>Some i\<close> is \<open>&neigh[i]\<close>.
  \<^item> Dereferencing \<open>NULL\<close> or an address outside the store, and reading \<open>vec\<close> outside
    the array, are undefined in C; the model returns \<open>None\<close> there.
\<close>

type_synonym uint = "32 word"
type_synonym ftype = real
type_synonym ptr = "nat option"

text \<open>
  \<^verbatim>\<open>struct segment { unsigned int index; ftype dist; struct segment next; };\<close>
  The field \<open>next\<close> is compared with and assigned \<open>NULL\<close> and followed by
  \<open>cur = cur->next\<close>, so it is a pointer. It is called \<open>next_seg\<close> here.
\<close>

record segment =
  index :: uint
  dist :: ftype
  next_seg :: ptr

type_synonym store = "segment list"

section \<open>\<open>segment_init\<close>\<close>

text \<open>
  \<^verbatim>\<open>this->index = 0; this->dist = -1; this->next = NULL;\<close>
\<close>

definition segment_init :: "store \<Rightarrow> ptr \<Rightarrow> store option" where
  "segment_init s this =
     (case this of
        None \<Rightarrow> None
      | Some a \<Rightarrow>
          if a < length s
          then Some (s[a := (s ! a)\<lparr>index := 0, dist := - 1, next_seg := None\<rparr>])
          else None)"

section \<open>\<open>segment_put\<close>\<close>

text \<open>
  The loop \<^verbatim>\<open>for (i=0;i<max_nei;i++)\<close> never uses \<open>i\<close> in its body, so the model counts
  the remaining iterations down. Each iteration dereferences \<open>cur\<close>:
  \<^item> \<open>cur->dist < 0\<close>: the cell is free; \<open>cdist\<close> and \<open>cindex\<close> are stored and the loop is
    left by \<open>break\<close>;
  \<^item> otherwise \<open>cur->dist > dist\<close> is tested and its branch is empty;
  \<^item> then \<open>cur\<close> moves to \<open>cur->next\<close> unless that is \<open>NULL\<close>.
  The result is the store together with the final cursor.
\<close>

fun put_loop :: "nat \<Rightarrow> store \<Rightarrow> ptr \<Rightarrow> uint \<Rightarrow> ftype \<Rightarrow> ftype \<Rightarrow> (store \<times> ptr) option" where
  "put_loop 0 s cur cindex cdist d = Some (s, cur)"
| "put_loop (Suc n) s cur cindex cdist d =
     (case cur of
        None \<Rightarrow> None
      | Some a \<Rightarrow>
          if a < length s then
            if dist (s ! a) < 0
            then Some (s[a := (s ! a)\<lparr>dist := cdist, index := cindex\<rparr>], cur)
            else
              let s1 = (if dist (s ! a) > d then s else s)
              in (case next_seg (s1 ! a) of
                    None \<Rightarrow> put_loop n s1 cur cindex cdist d
                  | Some b \<Rightarrow> put_loop n s1 (Some b) cindex cdist d)
          else None)"

text \<open>
  \<^verbatim>\<open>struct segment *cur = this; unsigned int cindex = index; ftype cdist = dist;\<close>
  followed by the loop. \<open>segment_put\<close> returns \<open>void\<close>; its effect is the new store.
\<close>

definition segment_put :: "store \<Rightarrow> ptr \<Rightarrow> uint \<Rightarrow> ftype \<Rightarrow> uint \<Rightarrow> store option" where
  "segment_put s this idx d max_nei =
     map_option fst (put_loop (unat max_nei) s this idx d d)"

section \<open>\<open>segmented_knn\<close>\<close>

text \<open>
  A \<open>for\<close> loop over a list of index values whose body may fault; the first fault ends
  the run.
\<close>

fun for_loop :: "('i \<Rightarrow> 's \<Rightarrow> 's option) \<Rightarrow> 'i list \<Rightarrow> 's \<Rightarrow> 's option" where
  "for_loop body [] s = Some s"
| "for_loop body (i # is) s =
     (case body i s of None \<Rightarrow> None | Some s' \<Rightarrow> for_loop body is s')"

text \<open>The read \<open>vec[k]\<close> of the flat array, for an \<open>unsigned int\<close> subscript.\<close>

definition vec_at :: "ftype list \<Rightarrow> uint \<Rightarrow> ftype option" where
  "vec_at vec k = (if unat k < length vec then Some (vec ! unat k) else None)"

text \<open>
  The body of the inner loop:
  \<^verbatim>\<open>ftype dist = dist_func(vec[i*dim], vec[j*dim], dim);
  segment_put(neigh[i], j, dist);
  segment_put(neigh[j], i, dist);\<close>
  \<^item> \<open>dist_func\<close> is not defined in the file; it is a parameter. It receives what the
    call passes: the two array elements \<open>vec[i*dim]\<close> and \<open>vec[j*dim]\<close>, and \<open>dim\<close>. The
    products are \<open>unsigned int\<close> products and wrap at \<open>2^32\<close>.
  \<^item> \<open>neigh[i]\<close> stands where \<open>segment_put\<close> takes a pointer: it is \<open>&neigh[i]\<close>.
  \<^item> The calls give three arguments to a function of four: nothing is passed for
    \<open>max_nei\<close>. The value that \<open>segment_put\<close> then works with is not determined by the
    source; it is the parameter \<open>arg4\<close> of the model, an arbitrary value. The
    \<open>max_nei\<close> of \<open>segmented_knn\<close> is not passed on.
  The parameter \<open>dim\<close> is written \<open>dm\<close>.
  The loop counters satisfy \<open>i < j < len\<close>, so they are natural numbers below \<open>2^32\<close>
  and \<open>of_nat\<close> gives their \<open>unsigned int\<close> value.
\<close>

definition pair_body ::
  "(ftype \<Rightarrow> ftype \<Rightarrow> uint \<Rightarrow> ftype) \<Rightarrow> ftype list \<Rightarrow> uint \<Rightarrow> uint \<Rightarrow> nat \<Rightarrow> nat \<Rightarrow> store \<Rightarrow> store option" where
  "pair_body dist_func vec dm arg4 i j s =
     (case vec_at vec (of_nat i * dm) of
        None \<Rightarrow> None
      | Some a \<Rightarrow>
          (case vec_at vec (of_nat j * dm) of
             None \<Rightarrow> None
           | Some b \<Rightarrow>
               let d = dist_func a b dm
               in (case segment_put s (Some i) (of_nat j) d arg4 of
                     None \<Rightarrow> None
                   | Some s1 \<Rightarrow> segment_put s1 (Some j) (of_nat i) d arg4)))"

text \<open>
  \<^verbatim>\<open>neigh = malloc(len*sizeof(struct segment));
  for (i=0;i<len;i++) segment_init(neigh[i]);
  for (i=0;i<len;i++){ for (j=i+1;j<len;j++){ ... } }\<close>
  The block returned by \<open>malloc\<close> has \<open>len\<close> cells of indeterminate content: cell \<open>i\<close>
  starts as \<open>mem i\<close>, for an arbitrary \<open>mem\<close>. Allocation is taken to succeed and to
  give room for \<open>len\<close> cells. The parameter \<open>vec\<close> hides the file's constant array of
  the same name, which is therefore not read. The parameter \<open>max_nei\<close> is never
  read: the two calls of \<open>segment_put\<close> are the only place for it, and they omit it
  (see \<open>arg4\<close> above). The function ends without a \<open>return\<close> statement; the value of
  the model is the content of the block \<open>neigh\<close> at that point.
\<close>

definition segmented_knn ::
  "(ftype \<Rightarrow> ftype \<Rightarrow> uint \<Rightarrow> ftype) \<Rightarrow> (nat \<Rightarrow> segment) \<Rightarrow> uint \<Rightarrow>
     ftype list \<Rightarrow> uint \<Rightarrow> uint \<Rightarrow> uint \<Rightarrow> store option" where
  "segmented_knn dist_func mem arg4 vec len dm max_nei =
     (let n = unat len;
          neigh = map mem [0..<n]
      in (case for_loop (\<lambda>i s. segment_init s (Some i)) [0..<n] neigh of
            None \<Rightarrow> None
          | Some s0 \<Rightarrow>
              for_loop (\<lambda>i. for_loop (\<lambda>j. pair_body dist_func vec dm arg4 i j) [Suc i..<n])
                [0..<n] s0))"

section \<open>Reading a neighbour list\<close>

text \<open>
  Modelled from the spec: the source has no function that reads a list back (the
  spec's \<open>to_sorted_sequence\<close>). \<open>chain n s p\<close> is the sequence of cells met by
  following \<open>next\<close> from \<open>p\<close>, at most \<open>n\<close> of them; it ends at \<open>NULL\<close> or at an address
  outside the store.
\<close>

fun chain :: "nat \<Rightarrow> store \<Rightarrow> ptr \<Rightarrow> segment list" where
  "chain 0 s p = []"
| "chain (Suc n) s p =
     (case p of
        None \<Rightarrow> []
      | Some a \<Rightarrow> if a < length s then (s ! a) # chain n s (next_seg (s ! a)) else [])"

text \<open>
  Modelled from the spec: the current contents of the list at \<open>p\<close> as a sequence of
  \<open>(id, distance)\<close> pairs (the spec's \<open>to_sorted_sequence\<close>, absent from the source).
  The entries are the cells of the chain from \<open>p\<close> up to the first free cell. A cell
  is free when its \<open>dist\<close> is negative: that is the value \<open>segment_init\<close> stores and
  the test by which \<open>segment_put\<close> recognises a free cell. The walk visits at most as
  many cells as the store has.
\<close>

definition entries :: "store \<Rightarrow> ptr \<Rightarrow> (uint \<times> ftype) list" where
  "entries s p =
     map (\<lambda>c. (index c, dist c)) (takeWhile (\<lambda>c. 0 \<le> dist c) (chain (length s) s p))"

section \<open>Auxiliary definitions\<close>

text \<open>The cell content that \<open>segment_init\<close> writes.\<close>

definition fresh :: segment where
  "fresh = \<lparr>index = 0, dist = - 1, next_seg = None\<rparr>"

text \<open>
  The effect of \<open>n\<close> loop iterations of \<open>segment_put\<close> on a cell \<open>a\<close> whose \<open>next\<close> is
  \<open>NULL\<close>: the cell is written when at least one iteration runs and the cell is free.
\<close>

definition put_head :: "nat \<Rightarrow> store \<Rightarrow> nat \<Rightarrow> uint \<Rightarrow> ftype \<Rightarrow> store" where
  "put_head n s a idx d =
     (if n = 0 \<or> 0 \<le> dist (s ! a) then s else s[a := (s ! a)\<lparr>dist := d, index := idx\<rparr>])"

text \<open>
  The values \<open>(i, j)\<close> of the two loop counters of \<open>segmented_knn\<close>, in the order in which
  the inner loop body runs.
\<close>

definition scan_pairs :: "nat \<Rightarrow> (nat \<times> nat) list" where
  "scan_pairs n = concat (map (\<lambda>i. map (Pair i) [Suc i..<n]) [0..<n])"

text \<open>Every cell of the store has \<open>next == NULL\<close>.\<close>

definition null_next :: "store \<Rightarrow> bool" where
  "null_next s = list_all (\<lambda>c. next_seg c = None) s"

text \<open>No occupied cell \<open>p\<close> of the block holds the index \<open>p\<close> itself.\<close>

definition no_self :: "store \<Rightarrow> bool" where
  "no_self s =
     list_all (\<lambda>p. 0 \<le> dist (s ! p) \<longrightarrow> index (s ! p) \<noteq> of_nat p) [0..<length s]"

text \<open>
  The elements of \<open>vec\<close> that \<open>segmented_knn\<close> reads are \<open>vec[i*dim]\<close> for every counter
  value \<open>i < len\<close>, provided the inner loop body runs at all, that is \<open>len \<ge> 2\<close>. This
  predicate says that all of them lie inside the array.
\<close>

definition reads_in_range :: "ftype list \<Rightarrow> uint \<Rightarrow> uint \<Rightarrow> bool" where
  "reads_in_range vec len dm =
     (unat len < 2 \<or> list_all (\<lambda>i. unat (of_nat i * dm) < length vec) [0..<unat len])"

text \<open>
  A sequence of \<open>segment_put\<close> calls on one list: the candidates \<open>cs\<close> are offered in
  order, all with the same \<open>max_nei\<close>.
\<close>

definition put_all :: "store \<Rightarrow> ptr \<Rightarrow> (uint \<times> ftype) list \<Rightarrow> uint \<Rightarrow> store option" where
  "put_all s this cs max_nei = for_loop (\<lambda>(idx, d) t. segment_put t this idx d max_nei) cs s"

text \<open>
  The properties the spec asks of a returned sequence, for the list of the point
  \<open>owner\<close>: ascending by distance, ties in ascending id, no id twice, and never the
  owner's own id.
\<close>

definition list_ok :: "uint \<Rightarrow> (uint \<times> ftype) list \<Rightarrow> bool" where
  "list_ok owner es =
     (sorted_wrt (\<lambda>(i, d) (j, e). d < e \<or> (d = e \<and> i \<le> j)) es \<and>
      distinct (map fst es) \<and> owner \<notin> fst ` set es)"

text \<open>
  The reference of the spec's brute-force property, in the spec's words: all other
  points, sorted by distance and then by id, cut to \<open>min k (n - 1)\<close> entries. The
  distance of two points is obtained as \<open>segmented_knn\<close> obtains it.
\<close>

definition knn_reference ::
  "(ftype \<Rightarrow> ftype \<Rightarrow> uint \<Rightarrow> ftype) \<Rightarrow> ftype list \<Rightarrow> nat \<Rightarrow> nat \<Rightarrow> nat \<Rightarrow> nat \<Rightarrow> (uint \<times> ftype) list" where
  "knn_reference dist_func vec dm n k p =
     take (min k (n - 1))
       (sort_key (\<lambda>(j, d). (d, j))
          (map (\<lambda>j. (of_nat j, dist_func (vec ! (p * dm)) (vec ! (j * dm)) (of_nat dm)))
             (filter (\<lambda>j. j \<noteq> p) [0..<n])))"

text \<open>
  Concrete inputs: the metric of the spec's scenario (absolute difference, applied to
  the two elements it is passed), and a block of memory whose content before
  initialisation is not that of \<open>segment_init\<close>.
\<close>

definition abs_diff :: "ftype \<Rightarrow> ftype \<Rightarrow> uint \<Rightarrow> ftype" where
  "abs_diff a b dm = \<bar>a - b\<bar>"

definition stale :: "nat \<Rightarrow> segment" where
  "stale i = \<lparr>index = 7, dist = 7, next_seg = Some 3\<rparr>"

section \<open>Loops\<close>

lemma for_loop_append:
  "for_loop body (xs @ ys) s =
     (case for_loop body xs s of None \<Rightarrow> None | Some s' \<Rightarrow> for_loop body ys s')"
  by (induction xs arbitrary: s) (auto split: option.splits)

lemma for_loop_inv:
  assumes "P s"
    and "\<And>i t. i \<in> set is \<Longrightarrow> P t \<Longrightarrow> \<exists>t'. body i t = Some t' \<and> P t'"
  shows "\<exists>s'. for_loop body is s = Some s' \<and> P s'"
  using assms
proof (induction "is" arbitrary: s)
  case Nil
  then show ?case by simp
next
  case (Cons i "is")
  from Cons.prems obtain t where t: "body i s = Some t" "P t"
    by (meson list.set_intros(1))
  have "\<exists>s'. for_loop body is t = Some s' \<and> P s'"
    by (rule Cons.IH [OF t(2)]) (simp add: Cons.prems(2))
  with t show ?case by simp
qed

lemma put_loop_head:
  assumes "a < length s" and "next_seg (s ! a) = None"
  shows "put_loop n s (Some a) ci cd d = Some (put_head n s a ci cd, Some a)"
  using assms by (induction n) (auto simp: put_head_def Let_def)

lemma segment_put_head:
  assumes "a < length s" and "next_seg (s ! a) = None"
  shows "segment_put s (Some a) idx d k = Some (put_head (unat k) s a idx d)"
  by (simp add: segment_put_def put_loop_head [OF assms])

lemma segment_reset: "c\<lparr>index := 0, dist := - 1, next_seg := None\<rparr> = fresh"
  by (cases c) (simp add: fresh_def)

lemma segment_init_Some:
  "segment_init s (Some a) = (if a < length s then Some (s[a := fresh]) else None)"
  by (simp add: segment_init_def segment_reset)

lemma init_loop:
  "m \<le> length s \<Longrightarrow>
   for_loop (\<lambda>i s. segment_init s (Some i)) [0..<m] s = Some (replicate m fresh @ drop m s)"
proof (induction m)
  case 0
  then show ?case by simp
next
  case (Suc m)
  then have m: "m < length s" by simp
  have "(replicate m fresh @ drop m s)[m := fresh] = replicate (Suc m) fresh @ drop (Suc m) s"
    using m by (simp add: list_update_append replicate_append_same upd_conv_take_nth_drop
        flip: Cons_nth_drop_Suc)
  with Suc m show ?case
    by (simp add: for_loop_append segment_init_Some)
qed

lemma init_block:
  "for_loop (\<lambda>i s. segment_init s (Some i)) [0..<n] (map mem [0..<n]) = Some (replicate n fresh)"
  using init_loop [of n "map mem [0..<n]"] by simp

lemma for_loop_nested:
  "for_loop (\<lambda>i. for_loop (body i) (js i)) is s =
   for_loop (\<lambda>(i, j). body i j) (concat (map (\<lambda>i. map (Pair i) (js i)) is)) s"
proof (induction "is" arbitrary: s)
  case Nil
  then show ?case by simp
next
  case (Cons i "is")
  have inner: "for_loop (\<lambda>(i, j). body i j) (map (Pair i) js') t = for_loop (body i) js' t"
    for js' t
    by (induction js' arbitrary: t) (auto split: option.splits)
  show ?case
    by (simp add: for_loop_append inner Cons.IH split: option.splits)
qed

lemma distinct_index_pairs:
  "distinct is \<Longrightarrow> (\<And>i. distinct (js i)) \<Longrightarrow>
   distinct (concat (map (\<lambda>i. map (Pair i) (js i)) is))"
  by (induction "is") (auto simp: distinct_map inj_on_def)

lemma distinct_scan_pairs: "distinct (scan_pairs n)"
  unfolding scan_pairs_def by (rule distinct_index_pairs) simp_all

lemma set_scan_pairs: "set (scan_pairs n) = {(i, j). i < j \<and> j < n}"
proof -
  have "(a, b) \<in> set (scan_pairs n) \<longleftrightarrow> a < b \<and> b < n" for a b
    by (auto simp: scan_pairs_def image_iff intro: bexI [of _ a])
  then show ?thesis by auto
qed

lemma segmented_knn_scan:
  "segmented_knn dist_func mem arg4 vec len dm max_nei =
   for_loop (\<lambda>(i, j). pair_body dist_func vec dm arg4 i j) (scan_pairs (unat len))
     (replicate (unat len) fresh)"
  by (simp add: segmented_knn_def Let_def init_block for_loop_nested scan_pairs_def)

section \<open>The scan\<close>

lemma unat_counter:
  fixes len :: uint
  assumes "i < unat len"
  shows "unat (of_nat i :: uint) = i"
proof (rule of_nat_inverse [OF refl])
  have "unat len < 2 ^ LENGTH(32)" by (rule unsigned_less)
  with assms show "i < 2 ^ LENGTH(32)" by (rule less_trans)
qed

lemma counters_differ:
  fixes len :: uint
  assumes "i < unat len" and "j < unat len" and "i \<noteq> j"
  shows "(of_nat i :: uint) \<noteq> of_nat j"
  using assms by (metis unat_counter)

lemma length_put_head [simp]: "length (put_head n s a idx d) = length s"
  by (simp add: put_head_def)

lemma next_put_head [simp]:
  "p < length s \<Longrightarrow> next_seg (put_head n s a idx d ! p) = next_seg (s ! p)"
  by (cases "p = a") (simp_all add: put_head_def)

lemma null_next_nth: "null_next s \<longleftrightarrow> (\<forall>p<length s. next_seg (s ! p) = None)"
  by (simp add: null_next_def list_all_length)

lemma null_next_put_head: "null_next s \<Longrightarrow> null_next (put_head n s a idx d)"
  by (simp add: null_next_nth)

lemma pair_body_head:
  assumes "null_next s" and "i < length s" and "j < length s"
    and "vec_at vec (of_nat i * dm) = Some x" and "vec_at vec (of_nat j * dm) = Some y"
  shows "pair_body dist_func vec dm k i j s =
         Some (put_head (unat k) (put_head (unat k) s i (of_nat j) (dist_func x y dm))
                 j (of_nat i) (dist_func x y dm))"
  using assms by (simp add: pair_body_def Let_def segment_put_head null_next_nth)

lemma reads_in_rangeD:
  assumes "reads_in_range vec len dm" and "(i, j) \<in> set (scan_pairs (unat len))"
  shows "\<exists>x y. vec_at vec (of_nat i * dm) = Some x \<and> vec_at vec (of_nat j * dm) = Some y"
proof -
  from assms(2) have ij: "i < j" "j < unat len" by (simp_all add: set_scan_pairs)
  then have "\<not> unat len < 2" by simp
  with assms(1) have "\<forall>p<unat len. unat (of_nat p * dm) < length vec"
    by (simp add: reads_in_range_def list_all_iff)
  with ij show ?thesis by (simp add: vec_at_def)
qed

lemma no_self_nth:
  "no_self s \<longleftrightarrow> (\<forall>p<length s. 0 \<le> dist (s ! p) \<longrightarrow> index (s ! p) \<noteq> of_nat p)"
  by (auto simp: no_self_def list_all_iff)

lemma no_self_put_head:
  assumes "no_self s" and "idx \<noteq> of_nat a"
  shows "no_self (put_head n s a idx d)"
  unfolding no_self_nth
proof (intro allI impI)
  fix p
  assume "p < length (put_head n s a idx d)" and "0 \<le> dist (put_head n s a idx d ! p)"
  with assms show "index (put_head n s a idx d ! p) \<noteq> of_nat p"
    by (cases "p = a") (auto simp: no_self_nth put_head_def split: if_splits)
qed

lemma scan_result:
  assumes "reads_in_range vec len dm"
  shows "\<exists>s. segmented_knn dist_func mem arg4 vec len dm k = Some s \<and>
             length s = unat len \<and> null_next s \<and> no_self s"
  unfolding segmented_knn_scan
proof (rule for_loop_inv [where P = "\<lambda>s. length s = unat len \<and> null_next s \<and> no_self s"])
  show "length (replicate (unat len) fresh) = unat len \<and> null_next (replicate (unat len) fresh) \<and>
        no_self (replicate (unat len) fresh)"
    by (simp add: null_next_nth no_self_nth fresh_def)
next
  fix ij t
  assume mem: "ij \<in> set (scan_pairs (unat len))"
    and inv: "length t = unat len \<and> null_next t \<and> no_self t"
  obtain i j where ij: "ij = (i, j)" by (cases ij)
  from mem ij have lt: "i < j" "j < unat len" by (simp_all add: set_scan_pairs)
  then have i: "i < unat len" by simp
  from reads_in_rangeD [OF assms] mem ij obtain x y
    where xy: "vec_at vec (of_nat i * dm) = Some x" "vec_at vec (of_nat j * dm) = Some y"
    by blast
  have ne: "(of_nat j :: uint) \<noteq> of_nat i" "(of_nat i :: uint) \<noteq> of_nat j"
    using counters_differ [OF i lt(2)] lt(1) by auto
  have step: "pair_body dist_func vec dm arg4 i j t =
      Some (put_head (unat arg4) (put_head (unat arg4) t i (of_nat j) (dist_func x y dm))
              j (of_nat i) (dist_func x y dm))"
    using inv i lt(2) xy by (intro pair_body_head) simp_all
  show "\<exists>t'. (case ij of (i, j) \<Rightarrow> pair_body dist_func vec dm arg4 i j) t = Some t' \<and>
          (length t' = unat len \<and> null_next t' \<and> no_self t')"
    using inv ne by (simp add: ij step null_next_put_head no_self_put_head)
qed

section \<open>Lists with a single cell\<close>

lemma chain_None [simp]: "chain n s None = []"
  by (cases n) simp_all

lemma entries_head:
  assumes "a < length s" and "next_seg (s ! a) = None"
  shows "entries s (Some a) = (if 0 \<le> dist (s ! a) then [(index (s ! a), dist (s ! a))] else [])"
proof -
  from assms(1) obtain m where "length s = Suc m" by (cases "length s") simp_all
  with assms show ?thesis by (simp add: entries_def)
qed

lemma put_all_head:
  assumes "a < length s" and "next_seg (s ! a) = None"
  shows "\<exists>s'. put_all s (Some a) cs k = Some s' \<and> length s' = length s \<and>
           next_seg (s' ! a) = None \<and> (s' ! a = s ! a \<or> index (s' ! a) \<in> fst ` set cs)"
  unfolding put_all_def
proof (rule for_loop_inv [where P = "\<lambda>t. length t = length s \<and> next_seg (t ! a) = None \<and>
         (t ! a = s ! a \<or> index (t ! a) \<in> fst ` set cs)"])
  show "length s = length s \<and> next_seg (s ! a) = None \<and> (s ! a = s ! a \<or> index (s ! a) \<in> fst ` set cs)"
    using assms by simp
next
  fix c t
  assume c: "c \<in> set cs"
    and inv: "length t = length s \<and> next_seg (t ! a) = None \<and>
              (t ! a = s ! a \<or> index (t ! a) \<in> fst ` set cs)"
  obtain idx d where cd: "c = (idx, d)" by (cases c)
  from c cd have "idx \<in> fst ` set cs" by force
  with inv assms(1)
  show "\<exists>t'. (case c of (idx, d) \<Rightarrow> \<lambda>t. segment_put t (Some a) idx d k) t = Some t' \<and>
          (length t' = length s \<and> next_seg (t' ! a) = None \<and>
           (t' ! a = s ! a \<or> index (t' ! a) \<in> fst ` set cs))"
    by (auto simp: cd segment_put_head put_head_def)
qed

lemma list_ok_head:
  "list_ok owner (if 0 \<le> dist c then [(index c, dist c)] else []) \<longleftrightarrow>
     (0 \<le> dist c \<longrightarrow> index c \<noteq> owner)"
  by (auto simp: list_ok_def)

lemma segment_init_cell:
  assumes "segment_init s (Some a) = Some s0"
  shows "a < length s0 \<and> s0 ! a = fresh"
  using assms by (auto simp: segment_init_Some split: if_splits)

lemma put_head_zero [simp]: "put_head 0 s a idx d = s"
  by (simp add: put_head_def)

lemma scan_zero:
  assumes "reads_in_range vec len dm"
  shows "segmented_knn dist_func mem 0 vec len dm k = Some (replicate (unat len) fresh)"
proof -
  have "\<exists>s. segmented_knn dist_func mem 0 vec len dm k = Some s \<and> s = replicate (unat len) fresh"
    unfolding segmented_knn_scan
  proof (rule for_loop_inv [where P = "\<lambda>s. s = replicate (unat len) fresh"])
    show "replicate (unat len) fresh = replicate (unat len) fresh" ..
  next
    fix ij t
    assume mem: "ij \<in> set (scan_pairs (unat len))" and t: "t = replicate (unat len) fresh"
    obtain i j where ij: "ij = (i, j)" by (cases ij)
    from mem ij have lt: "i < j" "j < unat len" by (simp_all add: set_scan_pairs)
    from reads_in_rangeD [OF assms] mem ij obtain x y
      where xy: "vec_at vec (of_nat i * dm) = Some x" "vec_at vec (of_nat j * dm) = Some y"
      by blast
    have "null_next t" by (simp add: t null_next_nth fresh_def)
    then have "pair_body dist_func vec dm 0 i j t = Some t"
      using lt xy by (simp add: pair_body_head t)
    then show "\<exists>t'. (case ij of (i, j) \<Rightarrow> pair_body dist_func vec dm 0 i j) t = Some t' \<and>
        t' = replicate (unat len) fresh"
      by (simp add: ij t)
  qed
  then show ?thesis by simp
qed

lemma entries_fresh: "p < n \<Longrightarrow> entries (replicate n fresh) (Some p) = []"
  by (simp add: entries_head fresh_def)

lemma map_next_put_head:
  "a < length s \<Longrightarrow> map next_seg (put_head n s a idx d) = map next_seg s"
  by (simp add: put_head_def map_update list_update_same_conv)

lemma length_entries_head:
  "a < length s \<Longrightarrow> next_seg (s ! a) = None \<Longrightarrow> length (entries s (Some a)) \<le> 1"
  by (simp add: entries_head)

lemma put_head_swap:
  assumes "i \<noteq> j"
  shows "put_head n (put_head n s i x d) j y e = put_head n (put_head n s j y e) i x d"
  using assms by (auto simp: put_head_def list_update_swap)

text \<open>The two calls of one loop body go to two different lists and commute.\<close>

lemma pair_puts_commute:
  assumes "null_next s" and "i < length s" and "j < length s" and "i \<noteq> j"
  shows "(case segment_put s (Some i) x d k of None \<Rightarrow> None
          | Some s1 \<Rightarrow> segment_put s1 (Some j) y d k) =
         (case segment_put s (Some j) y d k of None \<Rightarrow> None
          | Some s1 \<Rightarrow> segment_put s1 (Some i) x d k)"
  using assms by (simp add: segment_put_head null_next_nth put_head_swap)

text \<open>Two loop bodies that agree on the states of an invariant give the same loop.\<close>

lemma for_loop_cong_inv:
  assumes "P s"
    and "\<And>i t. i \<in> set is \<Longrightarrow> P t \<Longrightarrow> f i t = g i t"
    and "\<And>i t t'. i \<in> set is \<Longrightarrow> P t \<Longrightarrow> f i t = Some t' \<Longrightarrow> P t'"
  shows "for_loop f is s = for_loop g is s"
  using assms
proof (induction "is" arbitrary: s)
  case Nil
  then show ?case by simp
next
  case (Cons i "is")
  have eq: "f i s = g i s"
    by (rule Cons.prems(2)) (simp_all add: Cons.prems(1))
  show ?case
  proof (cases "f i s")
    case None
    with eq show ?thesis by simp
  next
    case (Some t)
    have "P t"
      by (rule Cons.prems(3) [OF _ Cons.prems(1) Some]) simp
    then have "for_loop f is t = for_loop g is t"
      by (rule Cons.IH) (auto intro: Cons.prems(2,3))
    with Some eq show ?thesis by simp
  qed
qed

text \<open>
  The scan depends on the undetermined fourth argument only through its being zero or
  not.
\<close>

lemma put_head_any:
  "put_head (unat (arg4 :: uint)) s a idx d = put_head (unat (if arg4 = 0 then 0 else 1 :: uint)) s a idx d"
  by (simp add: put_head_def unat_eq_0)

lemma pair_body_arg4:
  assumes "null_next t" and "i < length t" and "j < length t"
  shows "pair_body dist_func vec dm arg4 i j t =
         pair_body dist_func vec dm (if arg4 = 0 then 0 else 1) i j t"
proof (cases "vec_at vec (of_nat i * dm)")
  case None
  then show ?thesis by (simp add: pair_body_def)
next
  case x: (Some x)
  show ?thesis
  proof (cases "vec_at vec (of_nat j * dm)")
    case None
    with x show ?thesis by (simp add: pair_body_def)
  next
    case y: (Some y)
    show ?thesis
      unfolding pair_body_head [OF assms x y]
      by (metis put_head_any)
  qed
qed

lemma pair_body_inv:
  assumes "null_next t" and "i < length t" and "j < length t"
    and "pair_body dist_func vec dm arg4 i j t = Some t'"
  shows "length t' = length t \<and> null_next t'"
proof -
  from assms(4) obtain x y
    where xy: "vec_at vec (of_nat i * dm) = Some x" "vec_at vec (of_nat j * dm) = Some y"
    by (auto simp: pair_body_def split: option.splits)
  from assms(4) show ?thesis
    unfolding pair_body_head [OF assms(1-3) xy]
    using assms(1) by (auto simp: null_next_put_head)
qed

lemma scan_arg4:
  "segmented_knn dist_func mem arg4 vec len dm k =
   segmented_knn dist_func mem (if arg4 = 0 then 0 else 1) vec len dm k"
  unfolding segmented_knn_scan
proof (rule for_loop_cong_inv [where P = "\<lambda>t. length t = unat len \<and> null_next t"])
  show "length (replicate (unat len) fresh) = unat len \<and> null_next (replicate (unat len) fresh)"
    by (simp add: null_next_nth fresh_def)
next
  fix ij t
  assume mem: "ij \<in> set (scan_pairs (unat len))" and inv: "length t = unat len \<and> null_next t"
  obtain i j where ij: "ij = (i, j)" by (cases ij)
  from mem ij inv have "i < length t" "j < length t" by (simp_all add: set_scan_pairs)
  with inv show "(case ij of (i, j) \<Rightarrow> pair_body dist_func vec dm arg4 i j) t =
        (case ij of (i, j) \<Rightarrow> pair_body dist_func vec dm (if arg4 = 0 then 0 else 1) i j) t"
    unfolding ij prod.case by (intro pair_body_arg4) simp_all
next
  fix ij t t'
  assume mem: "ij \<in> set (scan_pairs (unat len))" and inv: "length t = unat len \<and> null_next t"
    and step: "(case ij of (i, j) \<Rightarrow> pair_body dist_func vec dm arg4 i j) t = Some t'"
  obtain i j where ij: "ij = (i, j)" by (cases ij)
  from mem ij inv have lt: "i < length t" "j < length t" by (simp_all add: set_scan_pairs)
  from step have "pair_body dist_func vec dm arg4 i j t = Some t'" by (simp add: ij)
  from pair_body_inv [OF _ lt this] inv show "length t' = unat len \<and> null_next t'"
    by simp
qed

lemma scan_pairs_two: "scan_pairs 2 = [(0, 1)]"
  by code_simp

lemma block_two: "replicate 2 x = [x, x]"
  by (simp add: numeral_2_eq_2)

text \<open>The scan of two vectors of two components.\<close>

lemma scan_two_vectors:
  "segmented_knn dist_func mem arg4 [x0, x1, y0, y1] 2 2 k =
     Some (if arg4 = 0 then [fresh, fresh]
           else [\<lparr>index = 1, dist = dist_func x0 y0 2, next_seg = None\<rparr>,
                 \<lparr>index = 0, dist = dist_func x0 y0 2, next_seg = None\<rparr>])"
proof -
  let ?vec = "[x0, x1, y0, y1]"
  let ?d = "dist_func x0 y0 2"
  have nn: "null_next [fresh, fresh]"
    by (simp add: null_next_def fresh_def)
  have x: "vec_at ?vec (of_nat 0 * 2) = Some x0"
    by (simp add: vec_at_def)
  have y: "vec_at ?vec (of_nat 1 * 2) = Some y0"
    by (simp add: vec_at_def)
  have body: "pair_body dist_func ?vec 2 arg4 0 1 [fresh, fresh] =
      Some (put_head (unat arg4) (put_head (unat arg4) [fresh, fresh] 0 (of_nat 1) ?d)
              1 (of_nat 0) ?d)"
    by (rule pair_body_head [OF nn _ _ x y]) simp_all
  have scan: "segmented_knn dist_func mem arg4 ?vec 2 2 k =
      pair_body dist_func ?vec 2 arg4 0 1 [fresh, fresh]"
    by (simp add: segmented_knn_scan scan_pairs_two block_two split: option.splits)
  show ?thesis
  proof (cases "arg4 = 0")
    case True
    show ?thesis unfolding scan body by (simp add: True)
  next
    case False
    then have n: "unat arg4 \<noteq> 0" by (simp add: unat_eq_0)
    have p1: "put_head (unat arg4) [fresh, fresh] 0 (of_nat 1) ?d =
        [\<lparr>index = 1, dist = ?d, next_seg = None\<rparr>, fresh]"
      using n by (simp add: put_head_def fresh_def)
    have p2: "put_head (unat arg4) [\<lparr>index = 1, dist = ?d, next_seg = None\<rparr>, fresh] 1 (of_nat 0) ?d =
        [\<lparr>index = 1, dist = ?d, next_seg = None\<rparr>, \<lparr>index = 0, dist = ?d, next_seg = None\<rparr>]"
      using n by (simp add: put_head_def fresh_def)
    show ?thesis unfolding scan body p1 p2 by (simp add: False)
  qed
qed

text \<open>
  Edge cases that do not depend on the bound that \<open>segment_put\<close> works with: a call
  with \<open>max_nei = 0\<close> changes nothing, and \<open>len = 0\<close> and \<open>len = 1\<close> give the empty block
  and one initialised cell. When the undetermined fourth argument happens to be zero,
  every cell stays as \<open>segment_init\<close> wrote it.
\<close>

lemma edge_cases_sound:
  "segment_put s this idx d 0 = Some s"
  "segmented_knn dist_func mem arg4 vec 0 dm k = Some []"
  "segmented_knn dist_func mem arg4 vec 1 dm k = Some [fresh]"
  "entries [fresh] (Some 0) = []"
  "reads_in_range vec len dm \<Longrightarrow>
     segmented_knn dist_func mem 0 vec len dm k = Some (replicate (unat len) fresh)"
proof -
  show "segment_put s this idx d 0 = Some s"
    by (simp add: segment_put_def)
  show "segmented_knn dist_func mem arg4 vec 0 dm k = Some []"
    by (simp add: segmented_knn_scan scan_pairs_def)
  show "segmented_knn dist_func mem arg4 vec 1 dm k = Some [fresh]"
    by (simp add: segmented_knn_scan scan_pairs_def)
  show "entries [fresh] (Some 0) = []"
    using entries_fresh [of 0 1] by simp
  show "reads_in_range vec len dm \<Longrightarrow>
     segmented_knn dist_func mem 0 vec len dm k = Some (replicate (unat len) fresh)"
    by (rule scan_zero)
qed

section \<open>The claims\<close>

text \<open>
  C1 (brute-force correctness) fails on the code. On the scenario of the spec, the
  four points \<open>0, 1, 3, 6\<close> on a line with \<open>k = 2\<close> and the absolute difference as
  metric, \<open>segmented_knn\<close> leaves for point 2 the single entry \<open>(id 0, d 3)\<close>, the first
  candidate offered, or no entry at all when the undetermined fourth argument of
  \<open>segment_put\<close> is zero. The two nearest other points are \<open>(id 1, d 2)\<close> and
  \<open>(id 0, d 3)\<close>.
\<close>

theorem scan_misses_nearest:
  "map_option (\<lambda>s. entries s (Some 2)) (segmented_knn abs_diff stale arg4 [0, 1, 3, 6] 4 1 2) =
     Some (if arg4 = 0 then [] else [(0, 3)]) \<and>
   knn_reference abs_diff [0, 1, 3, 6] 1 4 2 2 = [(1, 2), (0, 3)]"
proof -
  have "map_option (\<lambda>s. entries s (Some 2)) (segmented_knn abs_diff stale 0 [0, 1, 3, 6] 4 1 2) =
      Some []"
    by code_simp
  moreover
  have "map_option (\<lambda>s. entries s (Some 2)) (segmented_knn abs_diff stale 1 [0, 1, 3, 6] 4 1 2) =
      Some [(0, 3)]"
    by code_simp
  moreover have "knn_reference abs_diff [0, 1, 3, 6] 1 4 2 2 = [(1, 2), (0, 3)]"
    by code_simp
  ultimately show ?thesis
    by (simp add: scan_arg4 [of abs_diff stale arg4])
qed

text \<open>
  C2 (size \<open>min(k, N - 1)\<close> at completion) fails on the code. On the same scenario,
  with \<open>k = 2\<close> and \<open>N = 4\<close>, every point's list has one entry at completion (none when
  the undetermined fourth argument is zero), not two.
\<close>

theorem scan_sizes_below_k:
  "map_option (\<lambda>s. map (\<lambda>p. length (entries s (Some p))) [0, 1, 2, 3])
     (segmented_knn abs_diff stale arg4 [0, 1, 3, 6] 4 1 2) =
     Some (if arg4 = 0 then [0, 0, 0, 0] else [1, 1, 1, 1]) \<and>
   min (2 :: nat) (4 - 1) = 2"
proof -
  have "map_option (\<lambda>s. map (\<lambda>p. length (entries s (Some p))) [0, 1, 2, 3])
     (segmented_knn abs_diff stale 0 [0, 1, 3, 6] 4 1 2) = Some [0, 0, 0, 0]"
    by code_simp
  moreover
  have "map_option (\<lambda>s. map (\<lambda>p. length (entries s (Some p))) [0, 1, 2, 3])
     (segmented_knn abs_diff stale 1 [0, 1, 3, 6] 4 1 2) = Some [1, 1, 1, 1]"
    by code_simp
  ultimately show ?thesis
    by (simp add: scan_arg4 [of abs_diff stale arg4])
qed

text \<open>
  C3: for every point \<open>p\<close>, the sequence \<open>segmented_knn\<close> leaves for \<open>p\<close> is sorted
  ascending by distance with ties in ascending id, holds no id twice and never holds
  \<open>p\<close> itself; and the same is true of a list made by \<open>segment_init\<close> after any sequence
  of \<open>segment_put\<close> calls, in any order, whose ids differ from the owner's. (Each list
  holds at most one entry, which is why this holds.) The scan is assumed to read
  inside \<open>vec\<close>, and it is shown to complete, whatever the undetermined fourth argument
  of \<open>segment_put\<close> is.
\<close>

theorem lists_sorted_distinct_no_self:
  "(reads_in_range vec len dm \<longrightarrow>
      (\<exists>s. segmented_knn dist_func mem arg4 vec len dm k = Some s \<and>
           (\<forall>p<unat len. list_ok (of_nat p) (entries s (Some p))))) \<and>
   (segment_init s (Some a) = Some s0 \<and> owner \<notin> fst ` set cs \<longrightarrow>
      (\<exists>s'. put_all s0 (Some a) cs k = Some s' \<and> list_ok owner (entries s' (Some a))))"
proof (intro conjI impI)
  assume "reads_in_range vec len dm"
  from scan_result [OF this] obtain s
    where s: "segmented_knn dist_func mem arg4 vec len dm k = Some s" "length s = unat len"
      "null_next s" "no_self s"
    by blast
  have "list_ok (of_nat p) (entries s (Some p))" if "p < unat len" for p
  proof -
    from that s have "p < length s" "next_seg (s ! p) = None"
      by (simp_all add: null_next_nth)
    then show ?thesis
      using s(4) by (simp add: entries_head list_ok_head no_self_nth)
  qed
  with s(1) show "\<exists>s. segmented_knn dist_func mem arg4 vec len dm k = Some s \<and>
           (\<forall>p<unat len. list_ok (of_nat p) (entries s (Some p)))"
    by blast
next
  assume "segment_init s (Some a) = Some s0 \<and> owner \<notin> fst ` set cs"
  then have init: "a < length s0" "s0 ! a = fresh" and own: "owner \<notin> fst ` set cs"
    using segment_init_cell by blast+
  from init have "next_seg (s0 ! a) = None" by (simp add: fresh_def)
  from put_all_head [OF init(1) this, of cs k] obtain s'
    where s': "put_all s0 (Some a) cs k = Some s'" "length s' = length s0"
      "next_seg (s' ! a) = None" "s' ! a = s0 ! a \<or> index (s' ! a) \<in> fst ` set cs"
    by blast
  from s'(4) own init(2) have "0 \<le> dist (s' ! a) \<longrightarrow> index (s' ! a) \<noteq> owner"
    by (auto simp: fresh_def)
  with s' init(1) have "list_ok owner (entries s' (Some a))"
    by (simp add: entries_head list_ok_head)
  with s'(1) show "\<exists>s'. put_all s0 (Some a) cs k = Some s' \<and> list_ok owner (entries s' (Some a))"
    by blast
qed

theorem lists_sorted_distinct_no_self_witness:
  "reads_in_range [0, 1, 3, 6] 4 1 \<and>
   (\<exists>s. segmented_knn abs_diff stale 2 [0, 1, 3, 6] 4 1 2 = Some s \<and>
        (\<forall>p<unat (4 :: uint). list_ok (of_nat p) (entries s (Some p)))) \<and>
   segment_init [stale 0, stale 1, stale 2] (Some 2) = Some [stale 0, stale 1, fresh] \<and>
   (2 :: uint) \<notin> fst ` set [(1, 2), (0, 3 :: ftype)] \<and>
   (\<exists>s'. put_all [stale 0, stale 1, fresh] (Some 2) [(1, 2), (0, 3)] 2 = Some s' \<and>
         list_ok 2 (entries s' (Some 2)))"
proof -
  have r: "reads_in_range [0, 1, 3, 6] 4 1"
    by code_simp
  have i: "segment_init [stale 0, stale 1, stale 2] (Some 2) = Some [stale 0, stale 1, fresh]"
    by code_simp
  have o: "(2 :: uint) \<notin> fst ` set [(1, 2), (0, 3 :: ftype)]"
    by simp
  show ?thesis
    using lists_sorted_distinct_no_self
      [where vec = "[0, 1, 3, 6]" and len = 4 and dm = 1 and dist_func = abs_diff
        and mem = stale and ?arg4.0 = 2 and k = 2 and s = "[stale 0, stale 1, stale 2]" and a = 2
        and ?s0.0 = "[stale 0, stale 1, fresh]" and owner = 2 and cs = "[(1, 2), (0, 3)]"] r i o
    by blast
qed

text \<open>
  C4 (eviction at full capacity) fails on the code. The list of point 2 with
  \<open>max_nei = 1\<close> is full once \<open>(id 0, d 3)\<close> has been put. Offering \<open>(id 1, d 2)\<close>, which
  is strictly nearer, leaves the store unchanged: nothing is evicted and nothing is
  inserted. (\<open>segment_put\<close> returns \<open>void\<close>, so there is no accepted flag either.)
\<close>

theorem full_list_keeps_farther_entry:
  "put_all [fresh, fresh, fresh] (Some 2) [(0, 3)] 1 =
     Some [fresh, fresh, \<lparr>index = 0, dist = 3, next_seg = None\<rparr>] \<and>
   entries [fresh, fresh, \<lparr>index = 0, dist = 3, next_seg = None\<rparr>] (Some 2) = [(0, 3)] \<and>
   segment_put [fresh, fresh, \<lparr>index = 0, dist = 3, next_seg = None\<rparr>] (Some 2) 1 2 1 =
     Some [fresh, fresh, \<lparr>index = 0, dist = 3, next_seg = None\<rparr>]"
  by code_simp

text \<open>
  C5 (the edge cases give empty results) fails on the code for \<open>k == 0\<close>. The
  \<open>max_nei\<close> of \<open>segmented_knn\<close> never reaches \<open>segment_put\<close>: the two calls omit their
  fourth argument. With \<open>max_nei = 0\<close> on the four points of the spec's scenario, every
  list holds one entry as soon as the value \<open>segment_put\<close> works with is not zero.
\<close>

theorem max_nei_zero_not_passed:
  "map_option (\<lambda>s. map (\<lambda>p. entries s (Some p)) [0, 1, 2, 3])
     (segmented_knn abs_diff stale arg4 [0, 1, 3, 6] 4 1 0) =
     Some (if arg4 = 0 then [[], [], [], []] else [[(1, 1)], [(0, 1)], [(0, 3)], [(0, 6)]])"
proof -
  have "map_option (\<lambda>s. map (\<lambda>p. entries s (Some p)) [0, 1, 2, 3])
     (segmented_knn abs_diff stale 0 [0, 1, 3, 6] 4 1 0) = Some [[], [], [], []]"
    by code_simp
  moreover
  have "map_option (\<lambda>s. map (\<lambda>p. entries s (Some p)) [0, 1, 2, 3])
     (segmented_knn abs_diff stale 1 [0, 1, 3, 6] 4 1 0) =
     Some [[(1, 1)], [(0, 1)], [(0, 3)], [(0, 6)]]"
    by code_simp
  ultimately show ?thesis
    by (simp add: scan_arg4 [of abs_diff stale arg4])
qed

text \<open>
  C6 (independence of the offer order) fails on the code. The same two candidates,
  offered to the initialised list of point 2 with \<open>max_nei = 2\<close> in the two possible
  orders, leave two different lists: the one offered first stays. (Only the two calls
  of one loop body, which go to the lists of two different points, can be exchanged:
  \<open>pair_puts_commute\<close>.)
\<close>

theorem offer_order_changes_list:
  "map_option (\<lambda>s. entries s (Some 2)) (put_all [fresh, fresh, fresh] (Some 2) [(0, 3), (1, 2)] 2) =
     Some [(0, 3)] \<and>
   map_option (\<lambda>s. entries s (Some 2)) (put_all [fresh, fresh, fresh] (Some 2) [(1, 2), (0, 3)] 2) =
     Some [(1, 2)]"
  by code_simp





text \<open>
  C9 (one evaluation \<open>d = metric(vector[i], vector[j])\<close> per pair) fails on the code:
  the call is \<open>dist_func(vec[i*dim], vec[j*dim], dim)\<close>, so the metric is given the
  first element of each vector and the dimension, not the vectors. For the two
  vectors \<open>(0, 5)\<close> and \<open>(0, 9)\<close>, \<open>len = 2\<close> and \<open>dim = 2\<close>, the distance stored in both
  lists is \<open>dist_func 0 0 2\<close> for every \<open>dist_func\<close>: the second components \<open>5\<close> and \<open>9\<close>
  do not reach it, and the result is the one for the two equal vectors \<open>(0, 5)\<close> and
  \<open>(0, 5)\<close>.
\<close>

theorem metric_gets_first_elements:
  "segmented_knn dist_func mem arg4 [0, 5, 0, 9] 2 2 k =
     Some (if arg4 = 0 then [fresh, fresh]
           else [\<lparr>index = 1, dist = dist_func 0 0 2, next_seg = None\<rparr>,
                 \<lparr>index = 0, dist = dist_func 0 0 2, next_seg = None\<rparr>]) \<and>
   segmented_knn dist_func mem arg4 [0, 5, 0, 9] 2 2 k =
     segmented_knn dist_func mem arg4 [0, 5, 0, 5] 2 2 k"
  by (simp only: scan_two_vectors simp_thms)

text \<open>
  C10: on a cell whose \<open>next\<close> is \<open>NULL\<close>, the loop of \<open>segment_put\<close> ends with the
  cursor still on that cell after any number of iterations, assigns no \<open>next\<close> field
  and leaves a list of at most one entry; and when the cell holds a non-negative
  distance the call leaves the store unchanged, for every index, distance and
  \<open>max_nei\<close>. \<open>segment_init\<close> sets \<open>next\<close> to \<open>NULL\<close>, so after it any sequence of
  \<open>segment_put\<close> calls leaves \<open>next\<close> \<open>NULL\<close> and at most one entry, and every list
  that \<open>segmented_knn\<close> leaves has at most one entry.
\<close>

theorem list_is_head_only:
  "(a < length s \<and> next_seg (s ! a) = None \<longrightarrow>
      (\<exists>s'. put_loop n s (Some a) cindex cdist d = Some (s', Some a) \<and>
            map next_seg s' = map next_seg s \<and> length (entries s' (Some a)) \<le> 1) \<and>
      (0 \<le> dist (s ! a) \<longrightarrow> segment_put s (Some a) idx d max_nei = Some s)) \<and>
   (segment_init s (Some a) = Some s0 \<longrightarrow>
      next_seg (s0 ! a) = None \<and>
      (\<exists>s'. put_all s0 (Some a) cs max_nei = Some s' \<and> next_seg (s' ! a) = None \<and>
            length (entries s' (Some a)) \<le> 1)) \<and>
   (reads_in_range vec len dm \<longrightarrow>
      (\<exists>r. segmented_knn dist_func mem arg4 vec len dm k = Some r \<and>
           (\<forall>p<unat len. length (entries r (Some p)) \<le> 1)))"
proof (intro conjI impI)
  assume h: "a < length s \<and> next_seg (s ! a) = None"
  then have a: "a < length s" and nx: "next_seg (s ! a) = None" by simp_all
  let ?s' = "put_head n s a cindex cdist"
  have "put_loop n s (Some a) cindex cdist d = Some (?s', Some a)"
    by (rule put_loop_head [OF a nx])
  moreover have "map next_seg ?s' = map next_seg s"
    by (rule map_next_put_head [OF a])
  moreover have "length (entries ?s' (Some a)) \<le> 1"
    using a nx by (intro length_entries_head) simp_all
  ultimately show "\<exists>s'. put_loop n s (Some a) cindex cdist d = Some (s', Some a) \<and>
            map next_seg s' = map next_seg s \<and> length (entries s' (Some a)) \<le> 1"
    by blast
  assume "0 \<le> dist (s ! a)"
  then show "segment_put s (Some a) idx d max_nei = Some s"
    by (simp add: segment_put_head [OF a nx] put_head_def)
next
  assume "segment_init s (Some a) = Some s0"
  then have init: "a < length s0" "s0 ! a = fresh"
    using segment_init_cell by blast+
  then show nx: "next_seg (s0 ! a) = None" by (simp add: fresh_def)
  from put_all_head [OF init(1) nx, of cs max_nei] obtain s'
    where s': "put_all s0 (Some a) cs max_nei = Some s'" "length s' = length s0"
      "next_seg (s' ! a) = None"
    by blast
  with init(1) have "length (entries s' (Some a)) \<le> 1"
    by (intro length_entries_head) simp_all
  with s' show "\<exists>s'. put_all s0 (Some a) cs max_nei = Some s' \<and> next_seg (s' ! a) = None \<and>
            length (entries s' (Some a)) \<le> 1"
    by blast
next
  assume "reads_in_range vec len dm"
  from scan_result [OF this] obtain r
    where r: "segmented_knn dist_func mem arg4 vec len dm k = Some r" "length r = unat len"
      "null_next r"
    by blast
  then have "\<forall>p<unat len. length (entries r (Some p)) \<le> 1"
    by (simp add: null_next_nth entries_head)
  with r(1) show "\<exists>r. segmented_knn dist_func mem arg4 vec len dm k = Some r \<and>
           (\<forall>p<unat len. length (entries r (Some p)) \<le> 1)"
    by blast
qed

theorem list_is_head_only_witness:
  "(0 < length [\<lparr>index = 0, dist = 3, next_seg = None\<rparr>] \<and>
    next_seg ([\<lparr>index = 0, dist = 3, next_seg = None\<rparr>] ! 0) = None) \<and>
   (\<exists>s'. put_loop 5 [\<lparr>index = 0, dist = 3, next_seg = None\<rparr>] (Some 0) 1 2 2 = Some (s', Some 0) \<and>
         map next_seg s' = map next_seg [\<lparr>index = 0, dist = 3, next_seg = None\<rparr>] \<and>
         length (entries s' (Some 0)) \<le> 1) \<and>
   0 \<le> dist ([\<lparr>index = 0, dist = 3, next_seg = None\<rparr>] ! 0) \<and>
   segment_put [\<lparr>index = 0, dist = 3, next_seg = None\<rparr>] (Some 0) 1 2 5 =
     Some [\<lparr>index = 0, dist = 3, next_seg = None\<rparr>] \<and>
   segment_init [\<lparr>index = 0, dist = 3, next_seg = None\<rparr>] (Some 0) = Some [fresh] \<and>
   next_seg ([fresh] ! 0) = None \<and>
   (\<exists>s'. put_all [fresh] (Some 0) [(1, 2), (2, 1)] 5 = Some s' \<and> next_seg (s' ! 0) = None \<and>
         length (entries s' (Some 0)) \<le> 1) \<and>
   reads_in_range [0, 1, 3, 6] 4 1 \<and>
   (\<exists>r. segmented_knn abs_diff stale 5 [0, 1, 3, 6] 4 1 5 = Some r \<and>
        (\<forall>p<unat (4 :: uint). length (entries r (Some p)) \<le> 1))"
proof -
  have h: "0 < length [\<lparr>index = 0, dist = 3, next_seg = None\<rparr>] \<and>
      next_seg ([\<lparr>index = 0, dist = 3, next_seg = None\<rparr>] ! 0) = None"
    by simp
  have o: "0 \<le> dist ([\<lparr>index = 0, dist = 3, next_seg = None\<rparr>] ! 0)"
    by simp
  have i: "segment_init [\<lparr>index = 0, dist = 3, next_seg = None\<rparr>] (Some 0) = Some [fresh]"
    by code_simp
  have r: "reads_in_range [0, 1, 3, 6] 4 1"
    by code_simp
  show ?thesis
    using list_is_head_only
      [where a = 0 and s = "[\<lparr>index = 0, dist = 3, next_seg = None\<rparr>]" and n = 5
        and cindex = 1 and cdist = 2 and d = 2 and idx = 1 and max_nei = 5 and ?s0.0 = "[fresh]"
        and cs = "[(1, 2), (2, 1)]" and vec = "[0, 1, 3, 6]" and len = 4 and dm = 1
        and dist_func = abs_diff and mem = stale and ?arg4.0 = 5 and k = 5] h o i r
    by blast
qed

end
